theory Spec2Isabelle
  imports Main "HOL-Library.AList"
begin

section \<open>The nested dictionary of \<^verbatim>\<open>extended_containers/nested_dict.py\<close>\<close>

text \<open>
  A \<^verbatim>\<open>NestedDict\<close> is a Python \<^verbatim>\<open>dict\<close> from path segments to children, a child being
  another \<^verbatim>\<open>NestedDict\<close> (a branch) or a value of the leaf type \<^verbatim>\<open>T\<close>, together with the
  attributes \<^verbatim>\<open>_key\<close> and \<^verbatim>\<open>__chainmap__\<close>. The two dictionaries are association lists in
  insertion order: \<^const>\<open>AList.update\<close> is the assignment \<^verbatim>\<open>d[k] = v\<close> (an existing key keeps
  its place, a new key goes last), \<^const>\<open>AList.delete\<close> is \<^verbatim>\<open>del d[k]\<close> on a present key and
  \<^const>\<open>map_of\<close> is the lookup.

  The attribute \<^verbatim>\<open>parent\<close> is a reference back to the enclosing object and is not a field
  of the tree: \<^verbatim>\<open>set\<close> creates every branch with \<^verbatim>\<open>parent=self\<close> and stores it in
  \<^verbatim>\<open>self\<close>, and no method moves a branch, so the parent of a branch is the node that holds
  it. The type \<open>located\<close> below pairs a node with the chain of its parents. The slot
  \<^verbatim>\<open>value.parent\<close> that \<^verbatim>\<open>set\<close> writes on a leaf is read by no method and is left out. A
  leaf value is never itself a \<^verbatim>\<open>NestedDict\<close>.
\<close>

datatype 'v node =
  NestedDict (own_key: "string option") (items: "(string \<times> 'v child) list")
    (chainmap: "(string \<times> 'v) list")
and 'v child = Branch "'v node" | Leaf 'v

text \<open>
  What \<^verbatim>\<open>get\<close> takes as its default and hands back: an object that may be stored in a node
  (a branch or a leaf value), or any other Python object (\<^verbatim>\<open>None\<close>, a string, ...).
  \<^verbatim>\<open>isinstance(x, NestedDict)\<close> holds of \<open>Obj (Branch b)\<close> only.
\<close>

datatype ('v, 'd) pyval = Obj "'v child" | Other 'd

datatype error = KeyError string | AttributeError

subsection \<open>Strings\<close>

text \<open>\<^verbatim>\<open>s.partition(".")\<close>: the text before the first dot, the dot, the text after it; the
  whole string and two empty strings when there is no dot.\<close>

fun str_partition :: "string \<Rightarrow> string \<times> string \<times> string" where
  "str_partition [] = ([], [], [])"
| "str_partition (c # cs) =
     (if c = CHR ''.'' then ([], [c], cs)
      else (case str_partition cs of (before, sep, after) \<Rightarrow> (c # before, sep, after)))"

definition head_of :: "string \<Rightarrow> string" where
  "head_of k = fst (str_partition k)"

definition rest_of :: "string \<Rightarrow> string" where
  "rest_of k = snd (snd (str_partition k))"

text \<open>\<^verbatim>\<open>s.startswith(p)\<close>\<close>

fun startswith :: "string \<Rightarrow> string \<Rightarrow> bool" where
  "startswith s [] = True"
| "startswith [] (c # p) = False"
| "startswith (x # s) (c # p) = (x = c \<and> startswith s p)"

lemma rest_of_shorter: "rest_of k \<noteq> [] \<Longrightarrow> length (rest_of k) < length k"
  unfolding rest_of_def
  by (induction k) (auto split: prod.splits if_splits)

subsection \<open>Reading\<close>

text \<open>\<^verbatim>\<open>dict.get(self, k, default)\<close>\<close>

definition dict_get :: "(string \<times> 'v child) list \<Rightarrow> string \<Rightarrow> ('v, 'd) pyval \<Rightarrow> ('v, 'd) pyval" where
  "dict_get d k dflt = (case map_of d k of Some c \<Rightarrow> Obj c | None \<Rightarrow> dflt)"

function get :: "'v node \<Rightarrow> string \<Rightarrow> ('v, 'd) pyval \<Rightarrow> ('v, 'd) pyval" where
  "get self k dflt =
     (let self_key = head_of k; node_key = rest_of k;
          branch = dict_get (items self) self_key dflt
      in if node_key = [] then branch
         else (case branch of
                 Obj (Branch b) \<Rightarrow> get b node_key dflt
               | _ \<Rightarrow> dflt))"
  by pat_completeness auto
termination
  by (relation "measure (\<lambda>(self, k, dflt). length k)") (auto simp: rest_of_shorter)

declare get.simps [simp del]

text \<open>\<^verbatim>\<open>__contains__\<close> of the package: the walk down the tree.\<close>

function contains :: "'v node \<Rightarrow> string \<Rightarrow> bool" where
  "contains self k =
     (let self_key = head_of k; node_key = rest_of k
      in if map_of (items self) self_key \<noteq> None then
           if node_key = [] then True
           else (case map_of (items self) self_key of
                   Some (Branch b) \<Rightarrow> contains b node_key
                 | _ \<Rightarrow> False)
         else False)"
  by pat_completeness auto
termination
  by (relation "measure (\<lambda>(self, k). length k)") (auto simp: rest_of_shorter)

declare contains.simps [simp del]

text \<open>\<^verbatim>\<open>__contains__\<close> of the copy of the class in \<^verbatim>\<open>tests/nested_dict/test_nested_dict.py\<close>:
  membership in the flat index.\<close>

definition contains_chainmap :: "'v node \<Rightarrow> string \<Rightarrow> bool" where
  "contains_chainmap self k = (map_of (chainmap self) k \<noteq> None)"

definition get_leaf :: "'v node \<Rightarrow> string \<Rightarrow> error + 'v" where
  "get_leaf self k = (case map_of (chainmap self) k of Some v \<Rightarrow> Inr v | None \<Rightarrow> Inl (KeyError k))"

subsection \<open>Writing\<close>

text \<open>\<^verbatim>\<open>NestedDict(parent=self, key=self_key)\<close>, the parent being the position in the tree.\<close>

definition new_branch :: "string \<Rightarrow> 'v node" where
  "new_branch self_key = NestedDict (Some self_key) [] []"

text \<open>\<^verbatim>\<open>NestedDict()\<close>\<close>

definition empty_root :: "'v node" where
  "empty_root = NestedDict None [] []"

function set_nd :: "'v node \<Rightarrow> string \<Rightarrow> 'v \<Rightarrow> 'v node" where
  "set_nd self k v =
     (let self1 = NestedDict (own_key self) (items self) (AList.update k v (chainmap self));
          self_key = head_of k; node_key = rest_of k
      in if node_key \<noteq> [] then
           let next_branch =
                 (case get self1 self_key (Other ()) of
                    Obj (Branch b) \<Rightarrow> b
                  | _ \<Rightarrow> new_branch self_key)
           in NestedDict (own_key self1)
                (AList.update self_key (Branch (set_nd next_branch node_key v)) (items self1))
                (chainmap self1)
         else NestedDict (own_key self1)
                (AList.update self_key (Leaf v) (items self1)) (chainmap self1))"
  by pat_completeness auto
termination
  by (relation "measure (\<lambda>(self, k, v). length k)") (auto simp: rest_of_shorter)

declare set_nd.simps [simp del]

text \<open>
  \<^verbatim>\<open>delete_key\<close> raises where a subscript misses (\<^verbatim>\<open>KeyError\<close>) or where the child it
  descends into is a leaf, which has no method \<^verbatim>\<open>delete_key\<close> (\<^verbatim>\<open>AttributeError\<close>). The
  objects are mutated in place, so what was done before the exception stays done: the
  result is the hierarchy as the call leaves it, with the exception if one was raised.
\<close>

function delete_key :: "'v node \<Rightarrow> string \<Rightarrow> 'v node \<times> error option" where
  "delete_key self k =
     (let self1 = NestedDict (own_key self) (items self)
                    (filter (\<lambda>(leaf_key, leaf). \<not> startswith leaf_key k) (chainmap self));
          self_key = head_of k; node_key = rest_of k
      in if node_key = [] then
           (case map_of (items self1) self_key of
              None \<Rightarrow> (self1, Some (KeyError self_key))
            | Some c \<Rightarrow>
                (NestedDict (own_key self1) (AList.delete self_key (items self1)) (chainmap self1),
                 None))
         else
           (case map_of (items self1) self_key of
              None \<Rightarrow> (self1, Some (KeyError self_key))
            | Some (Leaf x) \<Rightarrow> (self1, Some AttributeError)
            | Some (Branch sub_node) \<Rightarrow>
                (case delete_key sub_node node_key of
                   (sub_node', raised) \<Rightarrow>
                     (NestedDict (own_key self1)
                        (AList.update self_key (Branch sub_node') (items self1)) (chainmap self1),
                      raised))))"
  by pat_completeness auto
termination
  by (relation "measure (\<lambda>(self, k). length k)") (auto simp: rest_of_shorter)

declare delete_key.simps [simp del]

definition clear :: "'v node \<Rightarrow> 'v node" where
  "clear self = NestedDict (own_key self) [] []"

subsection \<open>The \<^verbatim>\<open>key\<close> property\<close>

text \<open>A node together with its \<^verbatim>\<open>parent\<close>, which is \<^verbatim>\<open>None\<close> or a node with a parent of
  its own.\<close>

datatype 'v located = Located (parent: "'v located option") (node_of: "'v node")

text \<open>\<^verbatim>\<open>f"{self._key}"\<close>\<close>

fun format_key :: "string option \<Rightarrow> string" where
  "format_key None = ''None''"
| "format_key (Some s) = s"

text \<open>\<^verbatim>\<open>self._key or ""\<close>\<close>

fun key_or_empty :: "string option \<Rightarrow> string" where
  "key_or_empty None = []"
| "key_or_empty (Some s) = s"

text \<open>The test \<^verbatim>\<open>parent and parent.key\<close> asks that the parent is not \<^verbatim>\<open>None\<close>, that it is
  not an empty dictionary and that its own path is not the empty string.\<close>

fun key :: "'v located \<Rightarrow> string" where
  "key (Located None self) = key_or_empty (own_key self)"
| "key (Located (Some p) self) =
     (if items (node_of p) \<noteq> [] \<and> key p \<noteq> []
      then key p @ ''.'' @ format_key (own_key self)
      else key_or_empty (own_key self))"

text \<open>Walking from a node to the branch found under a list of segments, each branch taken
  with the node it was found in as its parent; \<open>None\<close> where a segment is missing or holds
  a leaf.\<close>

fun descend :: "'v located \<Rightarrow> string list \<Rightarrow> 'v located option" where
  "descend u [] = Some u"
| "descend u (s # segs) =
     (case map_of (items (node_of u)) s of
        Some (Branch b) \<Rightarrow> descend (Located (Some u) b) segs
      | _ \<Rightarrow> None)"

definition locate :: "'v node \<Rightarrow> string list \<Rightarrow> 'v located option" where
  "locate root segs = descend (Located None root) segs"

text \<open>\<^verbatim>\<open>".".join(segs)\<close>\<close>

fun dot_join :: "string list \<Rightarrow> string" where
  "dot_join [] = []"
| "dot_join [s] = s"
| "dot_join (s # t # segs) = s @ ''.'' @ dot_join (t # segs)"

subsection \<open>Sequences of calls on a root\<close>

datatype 'v method_call = Call_set string 'v | Call_delete_key string | Call_clear

text \<open>A caller that goes on after a \<^verbatim>\<open>delete_key\<close> that raised finds the hierarchy as the
  failed call left it.\<close>

fun call :: "'v node \<Rightarrow> 'v method_call \<Rightarrow> 'v node" where
  "call self (Call_set k v) = set_nd self k v"
| "call self (Call_delete_key k) = fst (delete_key self k)"
| "call self Call_clear = clear self"

definition calls :: "'v method_call list \<Rightarrow> 'v node" where
  "calls cs = foldl call empty_root cs"

subsection \<open>The vocabulary of the properties\<close>

text \<open>A composite key is one or more non-empty segments joined by dots.\<close>

function composite_key :: "string \<Rightarrow> bool" where
  "composite_key k =
     (head_of k \<noteq> [] \<and>
      (if rest_of k = [] then k = head_of k else composite_key (rest_of k)))"
  by pat_completeness auto
termination
  by (relation "measure length") (auto simp: rest_of_shorter)

declare composite_key.simps [simp del]

text \<open>\<open>k'\<close> extends \<open>k\<close> at a segment boundary: it is \<open>k\<close>, a dot, and more.\<close>

definition extends_key :: "string \<Rightarrow> string \<Rightarrow> bool" where
  "extends_key k' k = startswith k' (k @ ''.'')"

text \<open>Resolution of a key fails: a segment is absent, or a segment that is not the last one
  holds a leaf.\<close>

function resolution_fails :: "'v node \<Rightarrow> string \<Rightarrow> bool" where
  "resolution_fails self k =
     (case map_of (items self) (head_of k) of
        None \<Rightarrow> True
      | Some c \<Rightarrow>
          if rest_of k = [] then False
          else (case c of Leaf x \<Rightarrow> True | Branch b \<Rightarrow> resolution_fails b (rest_of k)))"
  by pat_completeness auto
termination
  by (relation "measure (\<lambda>(self, k). length k)") (auto simp: rest_of_shorter)

declare resolution_fails.simps [simp del]

text \<open>The walk of \<^verbatim>\<open>delete_key\<close> comes to a node whose dictionary lacks the head segment.\<close>

function head_missing :: "'v node \<Rightarrow> string \<Rightarrow> bool" where
  "head_missing self k =
     (case map_of (items self) (head_of k) of
        None \<Rightarrow> True
      | Some c \<Rightarrow>
          if rest_of k = [] then False
          else (case c of Leaf x \<Rightarrow> False | Branch b \<Rightarrow> head_missing b (rest_of k)))"
  by pat_completeness auto
termination
  by (relation "measure (\<lambda>(self, k). length k)") (auto simp: rest_of_shorter)

declare head_missing.simps [simp del]

text \<open>Every node on the path of \<open>k\<close> maps what is left of \<open>k\<close> below it to \<open>v\<close> in its flat
  index.\<close>

function path_indexed :: "'v node \<Rightarrow> string \<Rightarrow> 'v \<Rightarrow> bool" where
  "path_indexed self k v =
     (map_of (chainmap self) k = Some v \<and>
      (if rest_of k = [] then True
       else (case map_of (items self) (head_of k) of
               Some (Branch b) \<Rightarrow> path_indexed b (rest_of k) v
             | _ \<Rightarrow> False)))"
  by pat_completeness auto
termination
  by (relation "measure (\<lambda>(self, k, v). length k)") (auto simp: rest_of_shorter)

declare path_indexed.simps [simp del]

text \<open>\<^verbatim>\<open>isinstance(x, NestedDict)\<close>\<close>

fun is_nested_dict :: "('v, 'd) pyval \<Rightarrow> bool" where
  "is_nested_dict (Obj (Branch b)) = True"
| "is_nested_dict x = False"

text \<open>At every node that the walk of \<^verbatim>\<open>delete_key\<close> along \<open>k\<close> passed, the flat index of
  \<open>after\<close> is that of \<open>before\<close> without the keys that start with what was left of \<open>k\<close> at
  that node.\<close>

function swept_along :: "'v node \<Rightarrow> 'v node \<Rightarrow> string \<Rightarrow> bool" where
  "swept_along before after k =
     (chainmap after = filter (\<lambda>(leaf_key, leaf). \<not> startswith leaf_key k) (chainmap before) \<and>
      (if rest_of k = [] then True
       else (case map_of (items before) (head_of k) of
               Some (Branch b) \<Rightarrow>
                 (case map_of (items after) (head_of k) of
                    Some (Branch b') \<Rightarrow> swept_along b b' (rest_of k)
                  | _ \<Rightarrow> False)
             | _ \<Rightarrow> True)))"
  by pat_completeness auto
termination
  by (relation "measure (\<lambda>(before, after, k). length k)") (auto simp: rest_of_shorter)

declare swept_along.simps [simp del]

text \<open>Every branch is stored under the segment it was created with.\<close>

inductive keyed :: "'v node \<Rightarrow> bool" where
  "(\<And>s b. map_of its s = Some (Branch b) \<Longrightarrow> own_key b = Some s \<and> keyed b)
   \<Longrightarrow> keyed (NestedDict ok its cm)"

section \<open>Facts about the methods\<close>

lemmas nd_eval =
  set_nd.simps get.simps contains.simps delete_key.simps resolution_fails.simps
  head_missing.simps path_indexed.simps composite_key.simps swept_along.simps
  contains_chainmap_def get_leaf_def clear_def calls_def locate_def extends_key_def
  empty_root_def new_branch_def dict_get_def head_of_def rest_of_def Let_def

subsection \<open>Splitting a key\<close>

lemma head_of_no_dot: "CHR ''.'' \<notin> set (head_of k)"
  unfolding head_of_def by (induction k) (auto split: prod.splits)

lemma partition_no_dot: "CHR ''.'' \<notin> set s \<Longrightarrow> str_partition s = (s, [], [])"
  by (induction s) auto

lemma head_of_head_of: "head_of (head_of k) = head_of k"
  using partition_no_dot [OF head_of_no_dot] by (simp add: head_of_def)

lemma rest_of_head_of: "rest_of (head_of k) = []"
  using partition_no_dot [OF head_of_no_dot] by (simp add: rest_of_def head_of_def)

subsection \<open>One step of \<^verbatim>\<open>get\<close> and \<^verbatim>\<open>set\<close>\<close>

lemma get_head: "get self (head_of k) dflt = dict_get (items self) (head_of k) dflt"
  by (subst get.simps) (simp add: head_of_head_of rest_of_head_of)

lemma set_nd_leaf:
  "rest_of k = [] \<Longrightarrow> set_nd self k v =
     NestedDict (own_key self) (AList.update (head_of k) (Leaf v) (items self))
       (AList.update k v (chainmap self))"
  by (subst set_nd.simps) simp

lemma set_nd_branch:
  "rest_of k \<noteq> [] \<Longrightarrow> set_nd self k v =
     NestedDict (own_key self)
       (AList.update (head_of k)
          (Branch (set_nd (case map_of (items self) (head_of k) of
                             Some (Branch b) \<Rightarrow> b | _ \<Rightarrow> new_branch (head_of k))
                     (rest_of k) v))
          (items self))
       (AList.update k v (chainmap self))"
  by (subst set_nd.simps)
     (simp add: get_head dict_get_def Let_def split: option.splits child.splits)

lemma chainmap_set_nd: "chainmap (set_nd self k v) = AList.update k v (chainmap self)"
  by (cases "rest_of k = []") (simp_all add: set_nd_leaf set_nd_branch)

lemma own_key_set_nd: "own_key (set_nd self k v) = own_key self"
  by (cases "rest_of k = []") (simp_all add: set_nd_leaf set_nd_branch)

lemma get_set_nd: "get (set_nd self k v) k dflt = Obj (Leaf v)"
proof (induction k arbitrary: self rule: length_induct)
  case (1 k)
  show ?case
  proof (cases "rest_of k = []")
    case True
    then show ?thesis
      by (subst get.simps) (simp add: set_nd_leaf dict_get_def update_conv')
  next
    case False
    then have "length (rest_of k) < length k" by (rule rest_of_shorter)
    with 1 have "\<And>n. get (set_nd n (rest_of k) v) (rest_of k) dflt = Obj (Leaf v)" by blast
    with False show ?thesis
      by (subst get.simps) (simp add: set_nd_branch dict_get_def update_conv')
  qed
qed

lemma contains_set_nd: "contains (set_nd self k v) k"
proof (induction k arbitrary: self rule: length_induct)
  case (1 k)
  show ?case
  proof (cases "rest_of k = []")
    case True
    then show ?thesis
      by (subst contains.simps) (simp add: set_nd_leaf update_conv')
  next
    case False
    then have "length (rest_of k) < length k" by (rule rest_of_shorter)
    with 1 have "\<And>n. contains (set_nd n (rest_of k) v) (rest_of k)" by blast
    with False show ?thesis
      by (subst contains.simps) (simp add: set_nd_branch update_conv')
  qed
qed

subsection \<open>Branches keep the segment they were created with\<close>

inductive_simps keyed_simp: "keyed (NestedDict ok its cm)"

lemma keyed_iff:
  "keyed n = (\<forall>s b. map_of (items n) s = Some (Branch b) \<longrightarrow> own_key b = Some s \<and> keyed b)"
  by (cases n) (simp add: keyed_simp)

lemma keyed_empty_root: "keyed empty_root"
  by (simp add: empty_root_def keyed_simp)

lemma keyed_new_branch: "keyed (new_branch s)"
  by (simp add: new_branch_def keyed_simp)

lemma own_key_new_branch: "own_key (new_branch s) = Some s"
  by (simp add: new_branch_def)

lemma keyed_clear: "keyed (clear n)"
  by (simp add: clear_def keyed_simp)

lemma items_set_nd:
  "map_of (items (set_nd self k v)) =
     (map_of (items self))(head_of k \<mapsto>
        (if rest_of k = [] then Leaf v
         else Branch (set_nd (case map_of (items self) (head_of k) of
                                Some (Branch b) \<Rightarrow> b | _ \<Rightarrow> new_branch (head_of k))
                        (rest_of k) v)))"
  by (cases "rest_of k = []") (simp_all add: set_nd_leaf set_nd_branch update_conv')

lemma keyed_set_nd: "keyed self \<Longrightarrow> keyed (set_nd self k v)"
proof (induction k arbitrary: self rule: length_induct)
  case (1 k)
  note inv = \<open>keyed self\<close>
  then have old: "\<And>s b. map_of (items self) s = Some (Branch b) \<Longrightarrow> own_key b = Some s \<and> keyed b"
    by (subst (asm) keyed_iff) blast
  let ?nb = "case map_of (items self) (head_of k) of
               Some (Branch b) \<Rightarrow> b | _ \<Rightarrow> new_branch (head_of k)"
  have nb: "own_key ?nb = Some (head_of k) \<and> keyed ?nb"
  proof (cases "map_of (items self) (head_of k)")
    case None
    then show ?thesis by (simp add: keyed_new_branch own_key_new_branch)
  next
    case (Some c)
    show ?thesis
    proof (cases c)
      case (Leaf x)
      with Some show ?thesis by (simp add: keyed_new_branch own_key_new_branch)
    next
      case (Branch b)
      with Some have "map_of (items self) (head_of k) = Some (Branch b)" by simp
      from old [OF this] Some Branch show ?thesis by simp
    qed
  qed
  have "own_key b = Some s \<and> keyed b"
    if look: "map_of (items (set_nd self k v)) s = Some (Branch b)" for s b
  proof (cases "s = head_of k")
    case False
    with look have "map_of (items self) s = Some (Branch b)"
      by (simp add: items_set_nd)
    then show ?thesis by (rule old)
  next
    case True
    with look have rest: "rest_of k \<noteq> []" and b: "b = set_nd ?nb (rest_of k) v"
      by (simp_all add: items_set_nd split: if_splits)
    from rest have "length (rest_of k) < length k" by (rule rest_of_shorter)
    with 1 nb have "keyed (set_nd ?nb (rest_of k) v)" by blast
    with True b nb show ?thesis by (simp add: own_key_set_nd)
  qed
  then show ?case by (subst keyed_iff) blast
qed

lemma own_key_delete_key: "own_key (fst (delete_key self k)) = own_key self"
  by (subst delete_key.simps) (simp add: Let_def split: option.split child.split prod.split)

lemma chainmap_delete_key:
  "chainmap (fst (delete_key self k)) =
     filter (\<lambda>(leaf_key, leaf). \<not> startswith leaf_key k) (chainmap self)"
  by (subst delete_key.simps) (simp add: Let_def split: option.split child.split prod.split)

lemma items_delete_key:
  "map_of (items (fst (delete_key self k))) =
     (if rest_of k = [] then (map_of (items self))(head_of k := None)
      else (case map_of (items self) (head_of k) of
              Some (Branch b) \<Rightarrow>
                (map_of (items self))(head_of k \<mapsto> Branch (fst (delete_key b (rest_of k))))
            | _ \<Rightarrow> map_of (items self)))"
  by (subst delete_key.simps)
     (auto simp: Let_def delete_conv' update_conv' split: option.split child.split prod.split)

lemma keyed_delete_key: "keyed self \<Longrightarrow> keyed (fst (delete_key self k))"
proof (induction k arbitrary: self rule: length_induct)
  case (1 k)
  note inv = \<open>keyed self\<close>
  then have old: "\<And>s b. map_of (items self) s = Some (Branch b) \<Longrightarrow> own_key b = Some s \<and> keyed b"
    by (subst (asm) keyed_iff) blast
  have "own_key b = Some s \<and> keyed b"
    if look: "map_of (items (fst (delete_key self k))) s = Some (Branch b)" for s b
  proof (cases "rest_of k = []")
    case True
    with look have "map_of (items self) s = Some (Branch b)"
      by (simp add: items_delete_key split: if_splits)
    then show ?thesis by (rule old)
  next
    case False
    then have less: "length (rest_of k) < length k" by (rule rest_of_shorter)
    show ?thesis
    proof (cases "map_of (items self) (head_of k)")
      case None
      with look False have "map_of (items self) s = Some (Branch b)"
        by (simp add: items_delete_key)
      then show ?thesis by (rule old)
    next
      case (Some c)
      show ?thesis
      proof (cases c)
        case (Leaf x)
        with look False Some have "map_of (items self) s = Some (Branch b)"
          by (simp add: items_delete_key)
        then show ?thesis by (rule old)
      next
        case (Branch sub)
        with Some have sub: "own_key sub = Some (head_of k) \<and> keyed sub" by (simp add: old)
        with 1 less have ksub: "keyed (fst (delete_key sub (rest_of k)))" by blast
        show ?thesis
        proof (cases "s = head_of k")
          case True
          with look False Some Branch have "b = fst (delete_key sub (rest_of k))"
            by (simp add: items_delete_key)
          with True sub ksub show ?thesis by (simp add: own_key_delete_key)
        next
          case neq: False
          with look False Some Branch have "map_of (items self) s = Some (Branch b)"
            by (simp add: items_delete_key)
          then show ?thesis by (rule old)
        qed
      qed
    qed
  qed
  then show ?case by (subst keyed_iff) blast
qed

lemma own_key_call: "own_key (call n c) = own_key n"
  by (cases c) (simp_all add: own_key_set_nd own_key_delete_key clear_def)

lemma keyed_call: "keyed n \<Longrightarrow> keyed (call n c)"
  by (cases c) (simp_all add: keyed_set_nd keyed_delete_key keyed_clear)

lemma foldl_call: "keyed n \<Longrightarrow> keyed (foldl call n cs) \<and> own_key (foldl call n cs) = own_key n"
  by (induction cs arbitrary: n) (simp_all add: keyed_call own_key_call)

lemma calls_keyed: "keyed (calls cs) \<and> own_key (calls cs) = None"
  using foldl_call [OF keyed_empty_root, of cs] by (simp add: calls_def empty_root_def)

subsection \<open>Walking down to a branch\<close>

lemma descend_snoc:
  "descend u0 (segs @ [s]) = Some u \<Longrightarrow>
   \<exists>p. descend u0 segs = Some p \<and> parent u = Some p \<and>
       map_of (items (node_of p)) s = Some (Branch (node_of u))"
  by (induction segs arbitrary: u0) (auto split: option.splits child.splits)

lemma keyed_child:
  "keyed n \<Longrightarrow> map_of (items n) s = Some (Branch b) \<Longrightarrow> own_key b = Some s \<and> keyed b"
  by (subst (asm) keyed_iff) blast

lemma descend_keyed: "keyed (node_of u0) \<Longrightarrow> descend u0 segs = Some u \<Longrightarrow> keyed (node_of u)"
proof (induction segs arbitrary: u0)
  case Nil
  then show ?case by simp
next
  case (Cons s segs)
  from Cons.prems(2) obtain b where b: "map_of (items (node_of u0)) s = Some (Branch b)"
    and d: "descend (Located (Some u0) b) segs = Some u"
    by (auto split: option.splits child.splits)
  from keyed_child [OF Cons.prems(1) b] have "keyed (node_of (Located (Some u0) b))" by simp
  from Cons.IH [OF this d] show ?case .
qed

lemma descend_root_keyed:
  "keyed root \<Longrightarrow> descend (Located None root) segs = Some u \<Longrightarrow> keyed (node_of u)"
  using descend_keyed [of "Located None root" segs u] by simp

lemma dot_join_snoc:
  "dot_join (segs @ [s]) = (if segs = [] then s else dot_join segs @ ''.'' @ s)"
  by (induction segs rule: dot_join.induct) simp_all

lemma dot_join_empty: "\<forall>s\<in>set segs. s \<noteq> [] \<Longrightarrow> (dot_join segs = []) = (segs = [])"
  by (induction segs rule: dot_join.induct) simp_all

lemma key_step:
  assumes "parent u = Some p" and "map_of (items (node_of p)) s = Some (Branch (node_of u))"
    and "keyed (node_of p)"
  shows "key u = (if key p = [] then s else key p @ ''.'' @ s)"
proof -
  from keyed_child [OF assms(3,2)] have "own_key (node_of u) = Some s" by simp
  moreover from assms(2) have "items (node_of p) \<noteq> []" by auto
  ultimately show ?thesis using assms(1) by (cases u) simp
qed

lemma key_descend:
  "descend (Located None root) segs = Some u \<Longrightarrow> keyed root \<Longrightarrow> own_key root = None \<Longrightarrow>
   \<forall>s\<in>set segs. s \<noteq> [] \<Longrightarrow> key u = dot_join segs"
proof (induction segs arbitrary: u rule: rev_induct)
  case Nil
  then show ?case by auto
next
  case (snoc s segs)
  from snoc.prems(1) obtain p where p: "descend (Located None root) segs = Some p"
    "parent u = Some p" "map_of (items (node_of p)) s = Some (Branch (node_of u))"
    by (blast dest: descend_snoc)
  from snoc.prems(2) p(1) have kp: "keyed (node_of p)" by (rule descend_root_keyed)
  from snoc p(1) have "key p = dot_join segs" by simp
  moreover from snoc.prems(4) have "(dot_join segs = []) = (segs = [])"
    by (simp add: dot_join_empty)
  ultimately show ?case using key_step [OF p(2,3) kp] by (simp add: dot_join_snoc)
qed


subsection \<open>Keys that share a head, and the entries along a path\<close>

lemma partition_append: "str_partition k = (h, s, r) \<Longrightarrow> k = h @ s @ r \<and> (r \<noteq> [] \<longrightarrow> s = ''.'')"
  by (induction k arbitrary: h s r) (auto split: if_splits prod.splits)

lemma key_split:
  assumes "rest_of k \<noteq> []"
  shows "k = head_of k @ ''.'' @ rest_of k"
proof -
  obtain h s r where p: "str_partition k = (h, s, r)"
    by (cases "str_partition k") auto
  with assms have "r \<noteq> []" by (simp add: rest_of_def)
  with partition_append [OF p] have "k = h @ ''.'' @ r" by simp
  then show ?thesis unfolding head_of_def rest_of_def p by simp
qed

lemma composite_key_last: "composite_key k \<Longrightarrow> rest_of k = [] \<Longrightarrow> k = head_of k"
  by (subst (asm) composite_key.simps) simp

lemma composite_key_rest: "composite_key k \<Longrightarrow> rest_of k \<noteq> [] \<Longrightarrow> composite_key (rest_of k)"
  by (subst (asm) composite_key.simps) simp

lemma startswith_append_same: "startswith (p @ s) (p @ q) = startswith s q"
  by (induction p) simp_all

lemma startswith_self_append: "startswith (p @ t) p"
  using startswith_append_same [of p t "[]"] by simp

lemma get_step_leaf:
  "rest_of k = [] \<Longrightarrow> map_of (items n) (head_of k) = Some c \<Longrightarrow> get n k dflt = Obj c"
  by (subst get.simps) (simp add: dict_get_def)

lemma get_step_branch:
  "rest_of k \<noteq> [] \<Longrightarrow> map_of (items n) (head_of k) = Some (Branch b) \<Longrightarrow>
   get n k dflt = get b (rest_of k) dflt"
  by (subst get.simps) (simp add: dict_get_def)

lemma path_indexed_leaf:
  "rest_of k = [] \<Longrightarrow> path_indexed n k v = (map_of (chainmap n) k = Some v)"
  by (subst path_indexed.simps) simp

lemma path_indexed_branch:
  "rest_of k \<noteq> [] \<Longrightarrow> map_of (items n) (head_of k) = Some (Branch b) \<Longrightarrow>
   path_indexed n k v = (map_of (chainmap n) k = Some v \<and> path_indexed b (rest_of k) v)"
  by (subst path_indexed.simps) simp

lemma path_indexed_set_nd: "path_indexed (set_nd self k v) k v"
proof (induction k arbitrary: self rule: length_induct)
  case (1 k)
  have cm: "map_of (chainmap (set_nd self k v)) k = Some v"
    by (simp add: chainmap_set_nd update_conv')
  show ?case
  proof (cases "rest_of k = []")
    case True
    with cm show ?thesis by (simp add: path_indexed_leaf)
  next
    case False
    let ?nb = "case map_of (items self) (head_of k) of
                 Some (Branch b) \<Rightarrow> b | _ \<Rightarrow> new_branch (head_of k)"
    from False have "length (rest_of k) < length k" by (rule rest_of_shorter)
    with 1 have "path_indexed (set_nd ?nb (rest_of k) v) (rest_of k) v" by blast
    moreover from False have "map_of (items (set_nd self k v)) (head_of k) =
        Some (Branch (set_nd ?nb (rest_of k) v))"
      by (simp add: items_set_nd)
    ultimately show ?thesis using False cm by (simp add: path_indexed_branch)
  qed
qed


section \<open>The claims\<close>

text \<open>
  C1. \<^verbatim>\<open>contains(k)\<close> is to be true exactly when \<open>k\<close> is in the flat index, so that a key
  that stops at a branch reports absence. The \<^verbatim>\<open>__contains__\<close> of the package walks the tree
  and answers \<open>True\<close> as soon as the last segment is in the dictionary, branch or leaf: after
  \<^verbatim>\<open>set("a.b.c", v)\<close> on an empty root it reports \<^verbatim>\<open>"a"\<close> and \<^verbatim>\<open>"a.b"\<close> as contained, where
  the flat index, which the copy of the class in the tests consults, holds neither.
\<close>

theorem contains_reports_branch:
  "contains (set_nd empty_root ''a.b.c'' v) ''a'' \<and>
   contains (set_nd empty_root ''a.b.c'' v) ''a.b'' \<and>
   contains (set_nd empty_root ''a.b.c'' v) ''a.b.c'' \<and>
   \<not> contains (set_nd empty_root ''a.b.c'' v) ''a.b.c.d'' \<and>
   \<not> contains_chainmap (set_nd empty_root ''a.b.c'' v) ''a'' \<and>
   \<not> contains_chainmap (set_nd empty_root ''a.b.c'' v) ''a.b''"
  by (simp add: nd_eval)

text \<open>
  C2. The cleanup of the flat index in \<^verbatim>\<open>delete_key\<close> is to spare a key that only shares a
  textual prefix with the deleted one. The method tests \<^verbatim>\<open>k.startswith(key)\<close>: after
  \<^verbatim>\<open>set("ab", v1)\<close> and \<^verbatim>\<open>set("a", v2)\<close>, \<^verbatim>\<open>delete_key("a")\<close> returns normally and leaves
  the flat index empty, the entry of \<^verbatim>\<open>"ab"\<close> gone with that of \<^verbatim>\<open>"a"\<close>, while the leaf
  \<^verbatim>\<open>"ab"\<close> stays in the tree.
\<close>

theorem delete_key_raw_prefix:
  "set_nd (set_nd empty_root ''ab'' v1) ''a'' v2 =
     NestedDict None [(''ab'', Leaf v1), (''a'', Leaf v2)] [(''ab'', v1), (''a'', v2)] \<and>
   delete_key (set_nd (set_nd empty_root ''ab'' v1) ''a'' v2) ''a'' =
     (NestedDict None [(''ab'', Leaf v1)] [], None)"
  by (simp add: nd_eval)

text \<open>
  C4. Round trip: right after \<^verbatim>\<open>set(k, v)\<close> on any node and for any string \<open>k\<close>,
  \<^verbatim>\<open>get(k)\<close> returns \<open>v\<close> whatever the default, \<^verbatim>\<open>get_leaf(k)\<close> returns \<open>v\<close> and
  \<^verbatim>\<open>contains(k)\<close> is true.
\<close>

theorem set_round_trip:
  "get (set_nd self k v) k dflt = Obj (Leaf v) \<and>
   get_leaf (set_nd self k v) k = Inr v \<and>
   contains (set_nd self k v) k"
  by (simp add: get_set_nd contains_set_nd get_leaf_def chainmap_set_nd update_conv')

text \<open>
  C5. Index completeness is to survive every sequence of \<^verbatim>\<open>set\<close>, \<^verbatim>\<open>delete_key\<close> and
  \<^verbatim>\<open>clear\<close>: a leaf that a node reaches under a path is in that node's flat index under
  that path. After \<^verbatim>\<open>set("ab", v1)\<close>, \<^verbatim>\<open>set("a", v2)\<close>, \<^verbatim>\<open>delete_key("a")\<close> the root still
  reaches \<open>v1\<close> under \<^verbatim>\<open>"ab"\<close> and its flat index has no entry for \<^verbatim>\<open>"ab"\<close>.
\<close>

theorem completeness_lost_by_delete_key:
  "get (calls [Call_set ''ab'' v1, Call_set ''a'' v2, Call_delete_key ''a'']) ''ab'' dflt
     = Obj (Leaf v1) \<and>
   map_of (chainmap (calls [Call_set ''ab'' v1, Call_set ''a'' v2, Call_delete_key ''a'']))
     ''ab'' = None"
  by (simp add: nd_eval)

text \<open>
  C9. Deletion covers the addressed subtree: after \<^verbatim>\<open>set("a.b.c", v1)\<close> and
  \<^verbatim>\<open>set("a.b.d", v2)\<close> on an empty root, where the root indexes both leaves under
  \<^verbatim>\<open>"a.b.c"\<close>, \<^verbatim>\<open>"a.b.d"\<close> and the node at \<^verbatim>\<open>"a"\<close> under \<^verbatim>\<open>"b.c"\<close>, \<^verbatim>\<open>"b.d"\<close>, the call
  \<^verbatim>\<open>delete_key("a.b")\<close> returns normally, empties both flat indexes, and neither key is
  contained any more, by the walk of the tree or by the flat index.
\<close>

theorem delete_key_covers_subtree:
  "set_nd (set_nd empty_root ''a.b.c'' v1) ''a.b.d'' v2 =
     NestedDict None
       [(''a'', Branch (NestedDict (Some ''a'')
           [(''b'', Branch (NestedDict (Some ''b'')
               [(''c'', Leaf v1), (''d'', Leaf v2)] [(''c'', v1), (''d'', v2)]))]
           [(''b.c'', v1), (''b.d'', v2)]))]
       [(''a.b.c'', v1), (''a.b.d'', v2)] \<and>
   delete_key (set_nd (set_nd empty_root ''a.b.c'' v1) ''a.b.d'' v2) ''a.b'' =
     (NestedDict None [(''a'', Branch (NestedDict (Some ''a'') [] []))] [], None) \<and>
   \<not> contains (fst (delete_key (set_nd (set_nd empty_root ''a.b.c'' v1) ''a.b.d'' v2) ''a.b''))
       ''a.b.c'' \<and>
   \<not> contains (fst (delete_key (set_nd (set_nd empty_root ''a.b.c'' v1) ''a.b.d'' v2) ''a.b''))
       ''a.b.d'' \<and>
   \<not> contains_chainmap
       (fst (delete_key (set_nd (set_nd empty_root ''a.b.c'' v1) ''a.b.d'' v2) ''a.b''))
       ''a.b.c'' \<and>
   \<not> contains_chainmap
       (fst (delete_key (set_nd (set_nd empty_root ''a.b.c'' v1) ''a.b.d'' v2) ''a.b''))
       ''a.b.d''"
  by (simp add: nd_eval)

text \<open>
  C3, as stated: \<^verbatim>\<open>set\<close> leaves no flat-index entry for a leaf that the tree no longer
  reaches under that key. It does: after \<^verbatim>\<open>set("a", 1)\<close> and \<^verbatim>\<open>set("a.b", 2)\<close> the root's
  flat index still maps \<^verbatim>\<open>"a"\<close> to \<open>1\<close> while \<^verbatim>\<open>get("a")\<close> is the new branch, and after
  \<^verbatim>\<open>set("a.b", 1)\<close> and \<^verbatim>\<open>set("a", 2)\<close> it still maps \<^verbatim>\<open>"a.b"\<close> to \<open>1\<close> while
  \<^verbatim>\<open>get("a.b")\<close> finds nothing.
\<close>

theorem set_leaves_stale_entry:
  "map_of (chainmap (set_nd (set_nd empty_root ''a'' (1::nat)) ''a.b'' 2)) ''a'' = Some 1 \<and>
   get (set_nd (set_nd empty_root ''a'' (1::nat)) ''a.b'' 2) ''a'' (Other ()) =
     Obj (Branch (NestedDict (Some ''a'') [(''b'', Leaf 2)] [(''b'', 2)])) \<and>
   map_of (chainmap (set_nd (set_nd empty_root ''a.b'' (1::nat)) ''a'' 2)) ''a.b'' = Some 1 \<and>
   get (set_nd (set_nd empty_root ''a.b'' (1::nat)) ''a'' 2) ''a.b'' (Other ()) = Other ()"
  by (simp add: nd_eval)

text \<open>
  C3, amended: \<^verbatim>\<open>set(k, v)\<close> writes the entry of \<open>k\<close> in the flat index of the node it is
  called on, and that entry is the leaf the tree now reaches under \<open>k\<close>; every other entry
  of that flat index is left as it was, none is removed.
\<close>

theorem set_writes_one_entry:
  "map_of (chainmap (set_nd self k v)) = (map_of (chainmap self))(k \<mapsto> v) \<and>
   get (set_nd self k v) k dflt = Obj (Leaf v)"
  by (simp add: chainmap_set_nd update_conv' get_set_nd)

text \<open>
  C6. When the walk of \<^verbatim>\<open>delete_key(k)\<close> comes to a node that lacks the head segment, the
  call raises \<^verbatim>\<open>KeyError\<close>, and the hierarchy it leaves behind has, at the node it was called
  on and at every node it passed on the way down, the flat index without the keys that
  start with the key deleted there: what was removed before the failure stays removed.
\<close>

theorem delete_key_miss_not_rolled_back:
  assumes "head_missing self k"
  shows "(\<exists>s. snd (delete_key self k) = Some (KeyError s)) \<and>
         swept_along self (fst (delete_key self k)) k"
  using assms
proof (induction k arbitrary: self rule: length_induct)
  case (1 k)
  note miss = \<open>head_missing self k\<close>
  show ?case
  proof (cases "map_of (items self) (head_of k)")
    case None
    then show ?thesis
      by (simp add: delete_key.simps [of self k] swept_along.simps [of self _ k] Let_def)
  next
    case (Some c)
    with miss have rest: "rest_of k \<noteq> []"
      by (subst (asm) head_missing.simps) (simp split: if_splits)
    with Some miss obtain b where b: "c = Branch b" and "head_missing b (rest_of k)"
      by (subst (asm) head_missing.simps) (simp split: child.splits)
    moreover from rest have "length (rest_of k) < length k" by (rule rest_of_shorter)
    ultimately have ih: "(\<exists>s. snd (delete_key b (rest_of k)) = Some (KeyError s)) \<and>
         swept_along b (fst (delete_key b (rest_of k))) (rest_of k)"
      using 1 by blast
    then obtain sub' s where sub: "delete_key b (rest_of k) = (sub', Some (KeyError s))"
      and swept: "swept_along b sub' (rest_of k)"
      by (cases "delete_key b (rest_of k)") auto
    with Some rest b show ?thesis
      by (simp add: delete_key.simps [of self k] swept_along.simps [of self _ k] Let_def
            update_conv')
  qed
qed

theorem delete_key_miss_not_rolled_back_witness:
  "head_missing (set_nd empty_root ''a.bc'' (1::nat)) ''a.b'' \<and>
   set_nd empty_root ''a.bc'' (1::nat) =
     NestedDict None
       [(''a'', Branch (NestedDict (Some ''a'') [(''bc'', Leaf 1)] [(''bc'', 1)]))]
       [(''a.bc'', 1)] \<and>
   delete_key (set_nd empty_root ''a.bc'' (1::nat)) ''a.b'' =
     (NestedDict None [(''a'', Branch (NestedDict (Some ''a'') [(''bc'', Leaf 1)] []))] [],
      Some (KeyError ''b'')) \<and>
   swept_along (set_nd empty_root ''a.bc'' (1::nat))
     (fst (delete_key (set_nd empty_root ''a.bc'' (1::nat)) ''a.b'')) ''a.b''"
proof -
  have h: "head_missing (set_nd empty_root ''a.bc'' (1::nat)) ''a.b''"
    by (simp add: nd_eval)
  show ?thesis
    using h delete_key_miss_not_rolled_back [OF h] by (simp add: nd_eval)
qed

text \<open>
  C7, as stated: \<^verbatim>\<open>get(k, D)\<close> returns \<open>D\<close> for every default \<open>D\<close> when the resolution of
  \<open>k\<close> fails. When a segment that is not the last one is absent, \<^verbatim>\<open>dict.get\<close> hands back
  \<open>D\<close> in the place of the branch, and a \<open>D\<close> that is a \<^verbatim>\<open>NestedDict\<close> passes the
  \<^verbatim>\<open>isinstance\<close> test and is searched for the rest of the key: on an empty root,
  \<^verbatim>\<open>get("z.c", D)\<close> with \<open>D\<close> a node holding the leaf \<open>7\<close> under \<^verbatim>\<open>"c"\<close> returns \<open>7\<close>.
\<close>

theorem get_walks_into_default:
  "resolution_fails (empty_root :: nat node) ''z.c'' \<and>
   get (empty_root :: nat node) ''z.c''
     (Obj (Branch (NestedDict None [(''c'', Leaf 7)] [(''c'', 7)])) :: (nat, unit) pyval)
   = Obj (Leaf 7) \<and>
   get (empty_root :: nat node) ''z.c''
     (Obj (Branch (NestedDict None [(''c'', Leaf 7)] [(''c'', 7)])) :: (nat, unit) pyval)
   \<noteq> Obj (Branch (NestedDict None [(''c'', Leaf 7)] [(''c'', 7)]))"
  by (simp add: nd_eval)

text \<open>
  C7, amended: for every hierarchy, key \<open>k\<close> and default \<open>D\<close> that is not itself a
  \<^verbatim>\<open>NestedDict\<close>, \<^verbatim>\<open>get(k, D)\<close> returns \<open>D\<close> whenever the resolution of \<open>k\<close> fails at any
  step, a segment being absent or a segment before the last one holding a leaf.
\<close>

theorem get_returns_default:
  assumes "resolution_fails self k" and "\<not> is_nested_dict dflt"
  shows "get self k dflt = dflt"
  using assms
proof (induction k arbitrary: self rule: length_induct)
  case (1 k)
  note fails = \<open>resolution_fails self k\<close> and dflt = \<open>\<not> is_nested_dict dflt\<close>
  show ?case
  proof (cases "map_of (items self) (head_of k)")
    case None
    with dflt show ?thesis
      by (subst get.simps)
         (cases dflt rule: is_nested_dict.cases; simp add: dict_get_def Let_def)
  next
    case (Some c)
    with fails have rest: "rest_of k \<noteq> []"
      by (subst (asm) resolution_fails.simps) (simp split: if_splits)
    show ?thesis
    proof (cases c)
      case (Leaf x)
      with Some rest show ?thesis
        by (subst get.simps) (simp add: dict_get_def)
    next
      case (Branch b)
      with Some rest fails have "resolution_fails b (rest_of k)"
        by (subst (asm) resolution_fails.simps) simp
      moreover from rest have "length (rest_of k) < length k" by (rule rest_of_shorter)
      ultimately have "get b (rest_of k) dflt = dflt" using 1 by blast
      with Some rest Branch show ?thesis
        by (subst get.simps) (simp add: dict_get_def)
    qed
  qed
qed

theorem get_returns_default_witness:
  "resolution_fails (set_nd empty_root ''a.b'' (1::nat)) ''a.c'' \<and>
   \<not> is_nested_dict (Other ''NOT FOUND'' :: (nat, string) pyval) \<and>
   get (set_nd empty_root ''a.b'' (1::nat)) ''a.c'' (Other ''NOT FOUND'') = Other ''NOT FOUND'' \<and>
   resolution_fails (empty_root :: nat node) ''z'' \<and>
   get (empty_root :: nat node) ''z'' (Other ''NOT FOUND'') = Other ''NOT FOUND''"
proof -
  have f1: "resolution_fails (set_nd empty_root ''a.b'' (1::nat)) ''a.c''"
    by (simp add: nd_eval)
  have f2: "resolution_fails (empty_root :: nat node) ''z''"
    by (simp add: nd_eval)
  have d: "\<not> is_nested_dict (Other ''NOT FOUND'' :: (nat, string) pyval)"
    by simp
  show ?thesis
    using f1 f2 d get_returns_default [OF f1 d] get_returns_default [OF f2 d] by simp
qed

text \<open>
  C8. In a hierarchy built by any calls of \<^verbatim>\<open>set\<close>, \<^verbatim>\<open>delete_key\<close> and \<^verbatim>\<open>clear\<close> on a root
  made by \<^verbatim>\<open>NestedDict()\<close>, the \<^verbatim>\<open>key\<close> of the node found under non-empty segments is
  those segments joined by dots: the root reports the empty string, a child of the root
  reports its own segment with no leading dot, and any other node reports the \<^verbatim>\<open>key\<close> of its
  parent, a dot, and its own segment.
\<close>

theorem key_is_path:
  assumes "locate (calls cs) segs = Some u" and "\<forall>s\<in>set segs. s \<noteq> []"
  shows "key u = dot_join segs \<and>
         (case parent u of
            None \<Rightarrow> segs = [] \<and> key u = []
          | Some p \<Rightarrow> segs \<noteq> [] \<and> locate (calls cs) (butlast segs) = Some p \<and>
              key u = (if parent p = None then last segs else key p @ ''.'' @ last segs))"
proof -
  note inv = calls_keyed [of cs]
  from assms have k: "key u = dot_join segs"
    unfolding locate_def using inv by (auto intro: key_descend)
  show ?thesis
  proof (cases segs rule: rev_cases)
    case Nil
    with assms(1) k show ?thesis by (auto simp: locate_def)
  next
    case (snoc segs' s)
    with assms(1) obtain p where p: "descend (Located None (calls cs)) segs' = Some p"
      "parent u = Some p" "map_of (items (node_of p)) s = Some (Branch (node_of u))"
      unfolding locate_def by (blast dest: descend_snoc)
    from p(1) assms(2) snoc have kp: "key p = dot_join segs'"
      using inv by (auto intro: key_descend)
    have par: "(parent p = None) = (segs' = [])"
    proof (cases segs' rule: rev_cases)
      case Nil with p(1) show ?thesis by auto
    next
      case (snoc a b)
      with p(1) show ?thesis by (auto dest: descend_snoc)
    qed
    from assms(2) snoc have "(dot_join segs' = []) = (segs' = [])"
      by (simp add: dot_join_empty)
    with k kp p par snoc show ?thesis
      by (simp add: locate_def dot_join_snoc)
  qed
qed

theorem key_is_path_witness:
  "locate (calls [Call_set ''a.b.c'' (1::nat)]) [''a'', ''b''] =
     Some (Located
       (Some (Located (Some (Located None (calls [Call_set ''a.b.c'' 1])))
          (NestedDict (Some ''a'')
            [(''b'', Branch (NestedDict (Some ''b'') [(''c'', Leaf 1)] [(''c'', 1)]))]
            [(''b.c'', 1)])))
       (NestedDict (Some ''b'') [(''c'', Leaf 1)] [(''c'', 1)])) \<and>
   key (Located
       (Some (Located (Some (Located None (calls [Call_set ''a.b.c'' (1::nat)])))
          (NestedDict (Some ''a'')
            [(''b'', Branch (NestedDict (Some ''b'') [(''c'', Leaf 1)] [(''c'', 1)]))]
            [(''b.c'', 1)])))
       (NestedDict (Some ''b'') [(''c'', Leaf 1)] [(''c'', 1)])) = ''a.b'' \<and>
   key (Located None (calls [Call_set ''a.b.c'' (1::nat)])) = ''''"
proof -
  let ?root = "calls [Call_set ''a.b.c'' (1::nat)]"
  let ?u = "Located
       (Some (Located (Some (Located None ?root))
          (NestedDict (Some ''a'')
            [(''b'', Branch (NestedDict (Some ''b'') [(''c'', Leaf 1)] [(''c'', 1)]))]
            [(''b.c'', 1)])))
       (NestedDict (Some ''b'') [(''c'', Leaf 1)] [(''c'', 1)])"
  have l: "locate ?root [''a'', ''b''] = Some ?u"
    by (simp add: nd_eval)
  have l0: "locate ?root [] = Some (Located None ?root)"
    by (simp add: locate_def)
  have n: "\<forall>s\<in>set [''a'', ''b'']. s \<noteq> []" by simp
  have n0: "\<forall>s\<in>set ([] :: string list). s \<noteq> []" by simp
  from key_is_path [OF l n] have "key ?u = ''a.b''" by simp
  moreover from key_is_path [OF l0 n0] have "key (Located None ?root) = ''''" by simp
  ultimately show ?thesis using l by simp
qed

text \<open>
  C10. For composite keys \<open>k1\<close> and \<open>k2\<close> that are distinct and of which neither extends the
  other at a segment boundary, \<^verbatim>\<open>set(k1, v1)\<close> followed by \<^verbatim>\<open>set(k2, v2)\<close> on any node leaves
  the binding of \<open>k1\<close> intact: \<^verbatim>\<open>get(k1)\<close> still returns \<open>v1\<close>, and every node on the path of
  \<open>k1\<close> still maps what is left of \<open>k1\<close> below it to \<open>v1\<close> in its flat index.
\<close>

theorem set_frame:
  assumes "composite_key k1" and "composite_key k2" and "k1 \<noteq> k2"
    and "\<not> extends_key k1 k2" and "\<not> extends_key k2 k1"
  shows "get (set_nd (set_nd self k1 v1) k2 v2) k1 dflt = Obj (Leaf v1) \<and>
         path_indexed (set_nd (set_nd self k1 v1) k2 v2) k1 v1"
  using assms
proof (induction k1 arbitrary: k2 self rule: length_induct)
  case (1 k1)
  note c1 = \<open>composite_key k1\<close> and c2 = \<open>composite_key k2\<close> and neq = \<open>k1 \<noteq> k2\<close>
    and e12 = \<open>\<not> extends_key k1 k2\<close> and e21 = \<open>\<not> extends_key k2 k1\<close>
  let ?n1 = "set_nd self k1 v1"
  let ?n2 = "set_nd ?n1 k2 v2"
  let ?nb = "case map_of (items self) (head_of k1) of
               Some (Branch b) \<Rightarrow> b | _ \<Rightarrow> new_branch (head_of k1)"
  from neq have cm: "map_of (chainmap ?n2) k1 = Some v1"
    by (simp add: chainmap_set_nd update_conv')
  show ?case
  proof (cases "head_of k1 = head_of k2")
    case False
    then have same: "map_of (items ?n2) (head_of k1) = map_of (items ?n1) (head_of k1)"
      by (simp add: items_set_nd [of ?n1 k2 v2])
    show ?thesis
    proof (cases "rest_of k1 = []")
      case True
      with same have "map_of (items ?n2) (head_of k1) = Some (Leaf v1)"
        by (simp add: items_set_nd [of self k1 v1])
      with True cm show ?thesis
        by (simp add: get_step_leaf path_indexed_leaf)
    next
      case r1: False
      with same have "map_of (items ?n2) (head_of k1) = Some (Branch (set_nd ?nb (rest_of k1) v1))"
        by (simp add: items_set_nd [of self k1 v1])
      with r1 cm show ?thesis
        by (simp add: get_step_branch path_indexed_branch get_set_nd path_indexed_set_nd)
    qed
  next
    case heads: True
    have r1: "rest_of k1 \<noteq> []"
    proof
      assume e: "rest_of k1 = []"
      with c1 have k1: "k1 = head_of k1" by (rule composite_key_last)
      show False
      proof (cases "rest_of k2 = []")
        case True
        with c2 have "k2 = head_of k2" by (rule composite_key_last)
        with k1 heads neq show False by simp
      next
        case False
        then have "k2 = head_of k2 @ ''.'' @ rest_of k2" by (rule key_split)
        with heads k1 have "k2 = (k1 @ ''.'') @ rest_of k2" by simp
        then have "extends_key k2 k1"
          unfolding extends_key_def using startswith_self_append [of "k1 @ ''.''" "rest_of k2"]
          by simp
        with e21 show False by simp
      qed
    qed
    have r2: "rest_of k2 \<noteq> []"
    proof
      assume e: "rest_of k2 = []"
      with c2 have k2: "k2 = head_of k2" by (rule composite_key_last)
      from r1 have "k1 = head_of k1 @ ''.'' @ rest_of k1" by (rule key_split)
      with heads k2 have "k1 = (k2 @ ''.'') @ rest_of k1" by simp
      then have "extends_key k1 k2"
        unfolding extends_key_def using startswith_self_append [of "k2 @ ''.''" "rest_of k1"]
        by simp
      with e12 show False by simp
    qed
    from r1 have s1: "k1 = head_of k1 @ ''.'' @ rest_of k1" by (rule key_split)
    from r2 heads have s2: "k2 = head_of k1 @ ''.'' @ rest_of k2" using key_split [of k2] by simp
    from s1 s2 neq have rneq: "rest_of k1 \<noteq> rest_of k2" by auto
    have re12: "\<not> extends_key (rest_of k1) (rest_of k2)"
    proof
      assume "extends_key (rest_of k1) (rest_of k2)"
      then have "startswith ((head_of k1 @ ''.'') @ rest_of k1)
                   ((head_of k1 @ ''.'') @ (rest_of k2 @ ''.''))"
        unfolding extends_key_def by (simp only: startswith_append_same)
      with s1 s2 have "extends_key k1 k2"
        unfolding extends_key_def by (metis append.assoc)
      with e12 show False by simp
    qed
    have re21: "\<not> extends_key (rest_of k2) (rest_of k1)"
    proof
      assume "extends_key (rest_of k2) (rest_of k1)"
      then have "startswith ((head_of k1 @ ''.'') @ rest_of k2)
                   ((head_of k1 @ ''.'') @ (rest_of k1 @ ''.''))"
        unfolding extends_key_def by (simp only: startswith_append_same)
      with s1 s2 have "extends_key k2 k1"
        unfolding extends_key_def by (metis append.assoc)
      with e21 show False by simp
    qed
    from r1 have less: "length (rest_of k1) < length k1" by (rule rest_of_shorter)
    let ?b1 = "set_nd ?nb (rest_of k1) v1"
    from 1 less composite_key_rest [OF c1 r1] composite_key_rest [OF c2 r2] rneq re12 re21
    have ih: "get (set_nd ?b1 (rest_of k2) v2) (rest_of k1) dflt = Obj (Leaf v1) \<and>
              path_indexed (set_nd ?b1 (rest_of k2) v2) (rest_of k1) v1"
      by blast
    from r1 have i1: "map_of (items ?n1) (head_of k1) = Some (Branch ?b1)"
      by (simp add: items_set_nd [of self k1 v1])
    from i1 heads have i1': "map_of (items ?n1) (head_of k2) = Some (Branch ?b1)"
      by simp
    from r2 have "map_of (items ?n2) (head_of k2) =
        Some (Branch (set_nd (case map_of (items ?n1) (head_of k2) of
                               Some (Branch b) \<Rightarrow> b | _ \<Rightarrow> new_branch (head_of k2))
                       (rest_of k2) v2))"
      by (simp add: items_set_nd [of ?n1 k2 v2])
    with i1' have "map_of (items ?n2) (head_of k2) =
        Some (Branch (set_nd ?b1 (rest_of k2) v2))"
      by simp
    with heads have i2: "map_of (items ?n2) (head_of k1) =
        Some (Branch (set_nd ?b1 (rest_of k2) v2))"
      by simp
    from r1 i2 ih cm show ?thesis
      by (simp add: get_step_branch path_indexed_branch)
  qed
qed

theorem set_frame_witness:
  "composite_key ''a.b'' \<and> composite_key ''a.c'' \<and> ''a.b'' \<noteq> ''a.c'' \<and>
   \<not> extends_key ''a.b'' ''a.c'' \<and> \<not> extends_key ''a.c'' ''a.b'' \<and>
   get (set_nd (set_nd empty_root ''a.b'' (1::nat)) ''a.c'' 2) ''a.b'' (Other ()) = Obj (Leaf 1) \<and>
   path_indexed (set_nd (set_nd empty_root ''a.b'' (1::nat)) ''a.c'' 2) ''a.b'' 1 \<and>
   set_nd (set_nd empty_root ''a.b'' (1::nat)) ''a.c'' 2 =
     NestedDict None
       [(''a'', Branch (NestedDict (Some ''a'') [(''b'', Leaf 1), (''c'', Leaf 2)]
                         [(''b'', 1), (''c'', 2)]))]
       [(''a.b'', 1), (''a.c'', 2)]"
proof -
  have h: "composite_key ''a.b''" "composite_key ''a.c''" "''a.b'' \<noteq> ''a.c''"
    "\<not> extends_key ''a.b'' ''a.c''" "\<not> extends_key ''a.c'' ''a.b''"
    by (simp_all add: nd_eval)
  have s: "set_nd (set_nd empty_root ''a.b'' (1::nat)) ''a.c'' 2 =
     NestedDict None
       [(''a'', Branch (NestedDict (Some ''a'') [(''b'', Leaf 1), (''c'', Leaf 2)]
                         [(''b'', 1), (''c'', 2)]))]
       [(''a.b'', 1), (''a.c'', 2)]"
    by (simp add: nd_eval)
  from set_frame [OF h, of empty_root "1::nat" 2 "Other ()"] h s show ?thesis
    by simp
qed

end
